theory Spec2Isabelle
  imports Main "HOL-Library.Multiset"
begin

section \<open>The Node of the IxCompiler abstract syntax tree\<close>

text \<open>
  The source is \<^verbatim>\<open>source/mt/B.x-Node.h\<close>, the literate source of
  \<^verbatim>\<open>ixcompiler.Node.c\<close>. A Node is a C struct on the heap, reached through
  pointers, so the model is an explicit store: a map from addresses to Node structs.
  A pointer is an \<open>addr option\<close>, \<open>None\<close> being the null pointer. Every function that
  dereferences a pointer returns a sum: \<open>Inl\<close> an error where C has undefined behaviour
  (null or dangling dereference), \<open>Inr\<close> the result.
\<close>

subsection \<open>Data\<close>

type_synonym addr = nat

text \<open>A Token is opaque to the Node; only its identity matters here.\<close>

type_synonym Token = nat

text \<open>
  Modelled from the spec: the Ordered Container (\<^verbatim>\<open>ixcompiler.Array\<close>, absent from
  the source at hand), "a generic mutable sequence supporting append, remove-front,
  length, and indexed access". Its elements are the \<^verbatim>\<open>void*\<close> it stores, here
  pointers to Nodes. A Node is the only holder of its container, so the container is
  kept as a value in the field that points to it; \<open>None\<close> in that field is the null
  \<^verbatim>\<open>Array*\<close>.
\<close>

type_synonym Array = "addr option list"

text \<open>\<^verbatim>\<open>struct _Node { Token* token; const Node* parent; Array* children; }\<close>\<close>

record Node =
  token :: "Token option"
  parent :: "addr option"
  children :: "Array option"

datatype error = Null_Dereference | Dangling_Reference | Out_Of_Fuel

text \<open>
  The effects of \<^verbatim>\<open>Node_free\<close> are logged in the order they happen: what
  \<^verbatim>\<open>Token_free\<close>, \<^verbatim>\<open>Array_free\<close> and \<^verbatim>\<open>Platform_Free\<close> release, and
  the clearing of the parent field. A container is named by the Node that holds it.
\<close>

datatype event =
    Token_Released Token
  | Array_Released addr
  | Parent_Cleared addr
  | Node_Released addr

text \<open>
  The store. \<^verbatim>\<open>Platform_Alloc\<close> is absent from the source at hand, so its
  behaviour is a parameter of the state: \<open>alloc_script\<close> lists the outcomes of the
  coming calls, \<open>None\<close> a failed allocation and \<open>Some raw\<close> a successful one whose
  fresh storage holds \<open>raw\<close>. Fresh addresses are handed out in increasing order and
  never reused.
\<close>

record state =
  nodes :: "addr \<Rightarrow> Node option"
  next_addr :: addr
  alloc_script :: "Node option list"
  trace :: "event list"

definition init_state :: "Node option list \<Rightarrow> state" where
  "init_state script =
     \<lparr>nodes = Map.empty, next_addr = 0, alloc_script = script, trace = []\<rparr>"

text \<open>The storage the allocator may still hand out is not in use.\<close>

definition heap_ok :: "state \<Rightarrow> bool" where
  "heap_ok s = (\<forall>a. next_addr s \<le> a \<longrightarrow> nodes s a = None)"

subsection \<open>Collaborators\<close>

text \<open>
  Modelled from the spec: \<^verbatim>\<open>Platform_Alloc\<close>, "raw allocate/free primitives;
  failure yields an absent result". The spec does not say what fresh storage holds, so
  that stays the parameter \<open>raw\<close>. An exhausted script is an exhausted allocator.
\<close>

definition Platform_Alloc :: "state \<Rightarrow> addr option \<times> state" where
  "Platform_Alloc s =
     (case alloc_script s of
        [] \<Rightarrow> (None, s)
      | None # rest \<Rightarrow> (None, s\<lparr>alloc_script := rest\<rparr>)
      | Some raw # rest \<Rightarrow>
          (Some (next_addr s),
           s\<lparr>nodes := (nodes s)(next_addr s \<mapsto> raw),
             next_addr := Suc (next_addr s),
             alloc_script := rest\<rparr>))"

text \<open>
  Modelled from the spec: \<^verbatim>\<open>Platform_Free\<close>, the "free" of the Allocator, which
  "must not be called twice on the same allocation": releasing storage that is not in
  use is an error. \<^verbatim>\<open>Node_free\<close> passes it the handle, a \<^verbatim>\<open>Node**\<close>, and the
  model has it clear the handle as \<^verbatim>\<open>Node_new\<close> clears the one it is given.
\<close>

definition Platform_Free :: "addr \<Rightarrow> state \<Rightarrow> error + (addr option \<times> state)" where
  "Platform_Free a s =
     (case nodes s a of
        None \<Rightarrow> Inl Dangling_Reference
      | Some _ \<Rightarrow>
          Inr (None, s\<lparr>nodes := (nodes s)(a := None),
                        trace := trace s @ [Node_Released a]\<rparr>))"

text \<open>
  Modelled from the spec: \<^verbatim>\<open>Token_free( Token** )\<close> releases the Lexical Unit
  behind the handle, if there is one, and clears the handle.
\<close>

definition Token_free :: "Token option \<Rightarrow> event list \<Rightarrow> Token option \<times> event list" where
  "Token_free h tr =
     (case h of None \<Rightarrow> (None, tr) | Some t \<Rightarrow> (None, tr @ [Token_Released t]))"

text \<open>
  Modelled from the spec: the operations of the Ordered Container. The spec has a
  Node's children collection "never itself absent", so \<^verbatim>\<open>Array_new\<close> always
  yields a container, an empty one.
\<close>

definition Array_new :: "Array option" where
  "Array_new = Some []"

definition Array_push :: "Array option \<Rightarrow> addr option \<Rightarrow> error + Array option" where
  "Array_push arr obj =
     (case arr of None \<Rightarrow> Inl Null_Dereference | Some xs \<Rightarrow> Inr (Some (xs @ [obj])))"

text \<open>Remove-and-return-front; an empty container yields the null pointer.\<close>

definition Array_shift :: "Array option \<Rightarrow> error + (addr option \<times> Array option)" where
  "Array_shift arr =
     (case arr of
        None \<Rightarrow> Inl Null_Dereference
      | Some [] \<Rightarrow> Inr (None, Some [])
      | Some (x # xs) \<Rightarrow> Inr (x, Some xs))"

definition Array_length :: "Array option \<Rightarrow> error + int" where
  "Array_length arr =
     (case arr of None \<Rightarrow> Inl Null_Dereference | Some xs \<Rightarrow> Inr (int (length xs)))"

text \<open>
  Indexed access. The spec of \<^verbatim>\<open>getLastChild\<close> has it yield "an absent result if
  there are no children" at "index = count-1", so an index outside the container
  yields the null pointer.
\<close>

definition Array_getObject :: "Array option \<Rightarrow> int \<Rightarrow> error + addr option" where
  "Array_getObject arr i =
     (case arr of
        None \<Rightarrow> Inl Null_Dereference
      | Some xs \<Rightarrow> Inr (if 0 \<le> i \<and> i < int (length xs) then xs ! nat i else None))"

text \<open>\<^verbatim>\<open>Array_free( Array** )\<close>: releases the container of Node \<open>a\<close>, clears the handle.\<close>

definition Array_free :: "addr \<Rightarrow> Array option \<Rightarrow> event list \<Rightarrow> Array option \<times> event list" where
  "Array_free a h tr =
     (case h of None \<Rightarrow> (None, tr) | Some _ \<Rightarrow> (None, tr @ [Array_Released a]))"

text \<open>
  Modelled from the spec: \<^verbatim>\<open>NodeIterator_new\<close>, the Sequence Iterator, which
  "produces elements of an Ordered Container in order". The sequence it produces is
  the list of the elements.
\<close>

definition NodeIterator_new :: "Array option \<Rightarrow> error + addr option list" where
  "NodeIterator_new arr =
     (case arr of None \<Rightarrow> Inl Null_Dereference | Some xs \<Rightarrow> Inr xs)"

subsection \<open>Reading and writing the store\<close>

definition deref :: "state \<Rightarrow> addr option \<Rightarrow> error + Node" where
  "deref s p =
     (case p of
        None \<Rightarrow> Inl Null_Dereference
      | Some a \<Rightarrow> (case nodes s a of None \<Rightarrow> Inl Dangling_Reference | Some n \<Rightarrow> Inr n))"

text \<open>A write to fields of the Node at \<open>a\<close>; every use follows a successful read of \<open>a\<close>.\<close>

definition update_node :: "addr \<Rightarrow> (Node \<Rightarrow> Node) \<Rightarrow> state \<Rightarrow> state" where
  "update_node a f s = s\<lparr>nodes := (nodes s)(a := map_option f (nodes s a))\<rparr>"

subsection \<open>The operations of the Node\<close>

text \<open>
  \<^verbatim>\<open>Node_new( Token** token )\<close> returns the new Node, the value left in the caller's
  handle \<^verbatim>\<open>*token\<close>, and the store. The parent field is not written.
\<close>

definition Node_new :: "Token option \<Rightarrow> state \<Rightarrow> addr option \<times> Token option \<times> state" where
  "Node_new tok s =
     (case Platform_Alloc s of
        (None, s1) \<Rightarrow> (None, tok, s1)
      | (Some a, s1) \<Rightarrow>
          (let s2 = update_node a (\<lambda>n. n\<lparr>token := tok\<rparr>) s1;
               tok' = None;
               s3 = update_node a (\<lambda>n. n\<lparr>children := Array_new\<rparr>) s2
           in (Some a, tok', s3)))"

text \<open>
  \<^verbatim>\<open>Node_free( Node** self )\<close> returns the value left in the handle and the store.
  The recursion and the loop follow pointers of the store, so they take fuel: \<open>k\<close>
  bounds the nesting of calls and loop rounds. The C function is declared to return a
  \<^verbatim>\<open>Node*\<close> and has no return statement; no caller in the source reads it.
\<close>

fun Node_free :: "nat \<Rightarrow> addr option \<Rightarrow> state \<Rightarrow> error + (addr option \<times> state)"
  and Node_free_loop :: "nat \<Rightarrow> addr \<Rightarrow> state \<Rightarrow> error + state"
where
  "Node_free 0 self s = Inl Out_Of_Fuel"
| "Node_free (Suc k) self s =
     (case self of
        None \<Rightarrow> Inr (None, s)
      | Some a \<Rightarrow>
          (case deref s (Some a) of
             Inl e \<Rightarrow> Inl e
           | Inr n \<Rightarrow>
               (case Token_free (token n) (trace s) of
                  (t', tr1) \<Rightarrow>
                    (case Node_free_loop k a
                            (update_node a (\<lambda>n. n\<lparr>token := t'\<rparr>) (s\<lparr>trace := tr1\<rparr>)) of
                       Inl e \<Rightarrow> Inl e
                     | Inr s2 \<Rightarrow>
                         (case deref s2 (Some a) of
                            Inl e \<Rightarrow> Inl e
                          | Inr n2 \<Rightarrow>
                              (case Array_free a (children n2) (trace s2) of
                                 (c', tr3) \<Rightarrow>
                                   (let s3 = update_node a (\<lambda>n. n\<lparr>children := c'\<rparr>)
                                               (s2\<lparr>trace := tr3\<rparr>);
                                        s4 = update_node a (\<lambda>n. n\<lparr>parent := None\<rparr>)
                                               (s3\<lparr>trace := trace s3 @ [Parent_Cleared a]\<rparr>)
                                    in Platform_Free a s4)))))))"
| "Node_free_loop 0 a s = Inl Out_Of_Fuel"
| "Node_free_loop (Suc k) a s =
     (case deref s (Some a) of
        Inl e \<Rightarrow> Inl e
      | Inr n \<Rightarrow>
          (case Array_shift (children n) of
             Inl e \<Rightarrow> Inl e
           | Inr (node, arr') \<Rightarrow>
               (let s1 = update_node a (\<lambda>n. n\<lparr>children := arr'\<rparr>) s
                in case node of
                     None \<Rightarrow> Inr s1
                   | Some c \<Rightarrow>
                       (case Node_free k (Some c) s1 of
                          Inl e \<Rightarrow> Inl e
                        | Inr (_, s2) \<Rightarrow> Node_free_loop k a s2))))"

definition Node_setParent :: "addr option \<Rightarrow> addr option \<Rightarrow> state \<Rightarrow> error + state" where
  "Node_setParent self p s =
     (case deref s self of
        Inl e \<Rightarrow> Inl e
      | Inr n \<Rightarrow> Inr (update_node (the self) (\<lambda>n. n\<lparr>parent := p\<rparr>) s))"

text \<open>
  \<^verbatim>\<open>Node_addChild( Node* self, Token** token )\<close> returns the value left in the
  caller's handle and the store. The result of \<^verbatim>\<open>Node_new\<close> is pushed unchecked.
\<close>

definition Node_addChild :: "addr option \<Rightarrow> Token option \<Rightarrow> state \<Rightarrow> error + (Token option \<times> state)" where
  "Node_addChild self tok s =
     (case Node_new tok s of
        (child, tok', s1) \<Rightarrow>
          (case deref s1 self of
             Inl e \<Rightarrow> Inl e
           | Inr n \<Rightarrow>
               (case Array_push (children n) child of
                  Inl e \<Rightarrow> Inl e
                | Inr arr \<Rightarrow>
                    Inr (tok', update_node (the self) (\<lambda>n. n\<lparr>children := arr\<rparr>) s1))))"

definition Node_getToken :: "state \<Rightarrow> addr option \<Rightarrow> error + Token option" where
  "Node_getToken s self =
     (case deref s self of Inl e \<Rightarrow> Inl e | Inr n \<Rightarrow> Inr (token n))"

definition Node_hasChildren :: "state \<Rightarrow> addr option \<Rightarrow> error + bool" where
  "Node_hasChildren s self =
     (case deref s self of
        Inl e \<Rightarrow> Inl e
      | Inr n \<Rightarrow>
          (case Array_length (children n) of Inl e \<Rightarrow> Inl e | Inr len \<Rightarrow> Inr (0 < len)))"

definition Node_iterator :: "state \<Rightarrow> addr option \<Rightarrow> error + addr option list" where
  "Node_iterator s self =
     (case deref s self of Inl e \<Rightarrow> Inl e | Inr n \<Rightarrow> NodeIterator_new (children n))"

definition Node_getLastChild :: "state \<Rightarrow> addr option \<Rightarrow> error + addr option" where
  "Node_getLastChild s self =
     (case deref s self of
        Inl e \<Rightarrow> Inl e
      | Inr n \<Rightarrow>
          (case Array_length (children n) of
             Inl e \<Rightarrow> Inl e
           | Inr len \<Rightarrow> (let last = len - 1 in Array_getObject (children n) last)))"

text \<open>The parent field, read directly (the source has no getter for it).\<close>

definition parent_of :: "state \<Rightarrow> addr option \<Rightarrow> error + addr option" where
  "parent_of s self =
     (case deref s self of Inl e \<Rightarrow> Inl e | Inr n \<Rightarrow> Inr (parent n))"

text \<open>
  The length of the children container, as \<^verbatim>\<open>Node_hasChildren\<close> and
  \<^verbatim>\<open>Node_getLastChild\<close> read it.
\<close>

definition Node_count :: "state \<Rightarrow> addr option \<Rightarrow> error + int" where
  "Node_count s self =
     (case deref s self of Inl e \<Rightarrow> Inl e | Inr n \<Rightarrow> Array_length (children n))"

text \<open>Storage filled with zero bytes: every pointer field is null.\<close>

definition zeroed :: Node where
  "zeroed = \<lparr>token = None, parent = None, children = None\<rparr>"

text \<open>Successive \<^verbatim>\<open>Node_addChild\<close> calls on one Node, one per handle.\<close>

fun add_all :: "addr option \<Rightarrow> Token option list \<Rightarrow> state \<Rightarrow> error + state" where
  "add_all n [] s = Inr s"
| "add_all n (tok # toks) s =
     (case Node_addChild n tok s of
        Inl e \<Rightarrow> Inl e
      | Inr (_, s1) \<Rightarrow> add_all n toks s1)"

text \<open>
  Two stores for the examples: a root alone, holding Token 10, with one more allocation
  to come; and the same root with the allocator exhausted.
\<close>

definition root_only :: state where
  "root_only = snd (snd (Node_new (Some 10) (init_state [Some zeroed, Some zeroed])))"

definition root_only_exhausted :: state where
  "root_only_exhausted = snd (snd (Node_new (Some 10) (init_state [Some zeroed])))"

subsection \<open>Building a tree through the interface\<close>

text \<open>
  A caller reaches the Nodes below a root through \<^verbatim>\<open>Node_iterator\<close>: a path lists,
  from the root down, which element of the produced sequence to follow. A path that
  leaves the tree ends at the null pointer.
\<close>

fun descend :: "state \<Rightarrow> addr option \<Rightarrow> nat list \<Rightarrow> error + addr option" where
  "descend s p [] = Inr p"
| "descend s p (i # path) =
     (case Node_iterator s p of
        Inl e \<Rightarrow> Inl e
      | Inr cs \<Rightarrow> (if i < length cs then descend s (cs ! i) path else Inr None))"

text \<open>Nested \<^verbatim>\<open>Node_addChild\<close> calls: each appends a child to the Node at a path.\<close>

fun add_children :: "(nat list \<times> Token option) list \<Rightarrow> addr option \<Rightarrow> state \<Rightarrow> error + state" where
  "add_children [] root s = Inr s"
| "add_children ((path, tok) # cmds) root s =
     (case descend s root path of
        Inl e \<Rightarrow> Inl e
      | Inr n \<Rightarrow>
          (case Node_addChild n tok s of
             Inl e \<Rightarrow> Inl e
           | Inr (_, s1) \<Rightarrow> add_children cmds root s1))"

text \<open>\<^verbatim>\<open>Node_new\<close> for the root, then the nested \<^verbatim>\<open>Node_addChild\<close> calls.\<close>

definition build :: "Token option \<Rightarrow> (nat list \<times> Token option) list \<Rightarrow> state \<Rightarrow> error + (addr option \<times> state)" where
  "build tok cmds s =
     (case Node_new tok s of
        (root, _, s1) \<Rightarrow>
          (case add_children cmds root s1 of Inl e \<Rightarrow> Inl e | Inr s2 \<Rightarrow> Inr (root, s2)))"

text \<open>The Lexical Units behind a list of handles, and what a trace released.\<close>

fun units :: "Token option list \<Rightarrow> Token list" where
  "units [] = []"
| "units (None # hs) = units hs"
| "units (Some t # hs) = t # units hs"

fun released_tokens :: "event list \<Rightarrow> Token list" where
  "released_tokens [] = []"
| "released_tokens (Token_Released t # es) = t # released_tokens es"
| "released_tokens (e # es) = released_tokens es"

fun released_nodes :: "event list \<Rightarrow> addr list" where
  "released_nodes [] = []"
| "released_nodes (Node_Released a # es) = a # released_nodes es"
| "released_nodes (e # es) = released_nodes es"

subsection \<open>Trees in the store\<close>

text \<open>
  The shape of a tree in the store: for each Node its address, the values of its token
  and parent fields, and its children front to back.
\<close>

datatype htree = HT addr "Token option" "addr option" "htree list"

fun root_addr :: "htree \<Rightarrow> addr" where
  "root_addr (HT a t p ks) = a"

fun addrs :: "htree \<Rightarrow> addr list" where
  "addrs (HT a t p ks) = a # concat (map addrs ks)"

fun tree_units :: "htree \<Rightarrow> Token list" where
  "tree_units (HT a t p ks) = units [t] @ concat (map tree_units ks)"

text \<open>The store holds the tree: every Node's container lists exactly its children.\<close>

fun tree_at :: "state \<Rightarrow> htree \<Rightarrow> bool" where
  "tree_at s (HT a t p ks) =
     (nodes s a = Some \<lparr>token = t, parent = p,
                        children = Some (map (\<lambda>k. Some (root_addr k)) ks)\<rparr>
      \<and> (\<forall>k \<in> set ks. tree_at s k))"

text \<open>Appending a leaf below the Node at address \<open>n\<close>.\<close>

fun graft :: "addr \<Rightarrow> htree \<Rightarrow> htree \<Rightarrow> htree" where
  "graft n leaf (HT a t p ks) =
     (if a = n then HT a t p (ks @ [leaf]) else HT a t p (map (graft n leaf) ks))"

text \<open>
  The order of the effects of \<^verbatim>\<open>Node_free\<close> on a tree, as the source has it: the
  Node's own Token, the children front to back, the container, the parent field, the
  Node's storage.
\<close>

fun destroy_order :: "htree \<Rightarrow> event list" where
  "destroy_order (HT a t p ks) =
     map Token_Released (units [t]) @ concat (map destroy_order ks)
       @ [Array_Released a, Parent_Cleared a, Node_Released a]"



text \<open>Fuel that suffices for \<^verbatim>\<open>Node_free\<close> on a tree, and for the loop on its children.\<close>

fun need :: "htree \<Rightarrow> nat" and needs :: "htree list \<Rightarrow> nat" where
  "need (HT a t p ks) = Suc (needs ks)"
| "needs [] = 1"
| "needs (k # ks) = Suc (need k + needs ks)"




text \<open>
  Scenario 2 of the spec in full: the root holds Token 10, its child Token 11, and the
  child's child, appended below the first element of the root's sequence, Token 12.
\<close>

definition three_nodes :: state where
  "three_nodes =
     snd (projr (build (Some 10) [([], Some 11), ([0], Some 12)]
                   (init_state [Some zeroed, Some zeroed, Some zeroed])))"

text \<open>
  Storage that was in use before: its parent field still holds a pointer, here the
  address 99. A root constructed on it, and a root on zero-filled storage whose first
  child is constructed on it.
\<close>

definition used_storage :: Node where
  "used_storage = \<lparr>token = None, parent = Some 99, children = None\<rparr>"

definition fresh_on_used :: state where
  "fresh_on_used = snd (snd (Node_new (Some 10) (init_state [Some used_storage])))"

definition root_then_used :: state where
  "root_then_used =
     snd (snd (Node_new (Some 10) (init_state [Some zeroed, Some used_storage])))"

definition child_on_used :: state where
  "child_on_used = snd (projr (Node_addChild (Some 0) (Some 11) root_then_used))"

text \<open>A root alone, holding Token 10, with three more allocations to come.\<close>

definition root_three_to_come :: state where
  "root_three_to_come =
     snd (snd (Node_new (Some 10)
                 (init_state [Some zeroed, Some zeroed, Some zeroed, Some zeroed])))"

section \<open>Reading the store\<close>

lemma deref_Some: "nodes s a = Some nd \<Longrightarrow> deref s (Some a) = Inr nd"
  by (simp add: deref_def)

lemma deref_live: "deref s p = Inr nd \<Longrightarrow> \<exists>a. p = Some a \<and> nodes s a = Some nd"
  by (auto simp: deref_def split: option.splits)

lemma heap_ok_fresh: "heap_ok s \<Longrightarrow> nodes s a = Some nd \<Longrightarrow> a < next_addr s"
  unfolding heap_ok_def by (metis not_le option.distinct(1))

lemma root_only_eq:
  "root_only = \<lparr>nodes = [0 \<mapsto> \<lparr>token = Some 10, parent = None, children = Some []\<rparr>],
                next_addr = 1, alloc_script = [Some zeroed], trace = []\<rparr>"
  by (simp add: root_only_def Node_new_def Platform_Alloc_def init_state_def update_node_def
        Array_new_def zeroed_def)

lemma root_only_exhausted_eq:
  "root_only_exhausted
     = \<lparr>nodes = [0 \<mapsto> \<lparr>token = Some 10, parent = None, children = Some []\<rparr>],
        next_addr = 1, alloc_script = [], trace = []\<rparr>"
  by (simp add: root_only_exhausted_def Node_new_def Platform_Alloc_def init_state_def
        update_node_def Array_new_def zeroed_def)

lemma heap_ok_root_only: "heap_ok root_only"
  by (auto simp: heap_ok_def root_only_eq)

section \<open>Construction\<close>

lemma Node_new_ok:
  assumes "alloc_script s = Some raw # rest"
  shows "Node_new tok s =
           (Some (next_addr s), None,
            s\<lparr>nodes := (nodes s)(next_addr s \<mapsto> raw\<lparr>token := tok, children := Some []\<rparr>),
              next_addr := Suc (next_addr s), alloc_script := rest\<rparr>)"
  using assms
  by (simp add: Node_new_def Platform_Alloc_def update_node_def Array_new_def)

lemma Node_new_fail:
  assumes "fst (Platform_Alloc s) = None"
  shows "Node_new tok s = (None, tok, snd (Platform_Alloc s))"
  using assms by (cases "Platform_Alloc s") (simp add: Node_new_def)

lemma Platform_Alloc_fail_frame:
  assumes "fst (Platform_Alloc s) = None"
  shows "nodes (snd (Platform_Alloc s)) = nodes s"
    and "next_addr (snd (Platform_Alloc s)) = next_addr s"
    and "trace (snd (Platform_Alloc s)) = trace s"
  using assms by (auto simp: Platform_Alloc_def split: list.splits option.splits)

lemma Platform_Alloc_cases:
  obtains (fail) "fst (Platform_Alloc s) = None"
  | (ok) raw rest where "alloc_script s = Some raw # rest"
  by (cases "alloc_script s"; cases "hd (alloc_script s)") (auto simp: Platform_Alloc_def)

text \<open>
  \<^verbatim>\<open>Node_new\<close> writes the token and children fields only: the parent field of the
  new Node is what the allocator's fresh storage held.
\<close>

lemma Node_new_parent_unwritten:
  assumes "alloc_script s = Some raw # rest"
  shows "parent_of (snd (snd (Node_new tok s))) (fst (Node_new tok s)) = Inr (parent raw)"
  by (simp add: Node_new_ok [OF assms] parent_of_def deref_def)



text \<open>
  C9: if the allocation fails, \<^verbatim>\<open>Node_new\<close> returns the null pointer and leaves the
  caller's handle as it was; no Node is created and nothing is released. Only the
  allocator has moved on.
\<close>

theorem Node_new_failure_keeps_handle:
  assumes "fst (Platform_Alloc s) = None"
  shows "fst (Node_new tok s) = None
       \<and> fst (snd (Node_new tok s)) = tok
       \<and> nodes (snd (snd (Node_new tok s))) = nodes s
       \<and> next_addr (snd (snd (Node_new tok s))) = next_addr s
       \<and> trace (snd (snd (Node_new tok s))) = trace s"
  by (simp add: Node_new_fail [OF assms] Platform_Alloc_fail_frame [OF assms])

theorem Node_new_failure_keeps_handle_witness:
  "fst (Platform_Alloc (init_state [None])) = None
   \<and> fst (Node_new (Some 7) (init_state [None])) = None
   \<and> fst (snd (Node_new (Some 7) (init_state [None]))) = Some 7"
  using Node_new_failure_keeps_handle [of "init_state [None]" "Some 7"]
  by (simp add: Platform_Alloc_def init_state_def)

text \<open>
  C4, as the source has it: a Node freshly returned by a successful \<^verbatim>\<open>Node_new\<close>
  has an empty children container: \<^verbatim>\<open>Node_hasChildren\<close> is false and
  \<^verbatim>\<open>Node_iterator\<close> yields the empty sequence. \<^verbatim>\<open>Node_new\<close> does not write the
  parent field: it holds what the allocator's fresh storage held there, so the parent
  reference is null when the allocator hands out zero-filled storage.
\<close>

theorem Node_new_fresh:
  assumes "Node_new tok s = (Some a, tok', s')"
    and "alloc_script s = Some raw # rest"
  shows "Node_hasChildren s' (Some a) = Inr False
       \<and> Node_iterator s' (Some a) = Inr []
       \<and> parent_of s' (Some a) = Inr (parent raw)"
  using assms
  by (auto simp: Node_new_ok Node_hasChildren_def Node_iterator_def parent_of_def deref_def
        Array_length_def NodeIterator_new_def)

theorem Node_new_fresh_witness:
  "Node_new (Some 10) (init_state [Some zeroed, Some zeroed]) = (Some 0, None, root_only)
   \<and> parent zeroed = None
   \<and> Node_hasChildren root_only (Some 0) = Inr False
   \<and> Node_iterator root_only (Some 0) = Inr []
   \<and> parent_of root_only (Some 0) = Inr None"
proof -
  have new: "Node_new (Some 10) (init_state [Some zeroed, Some zeroed]) = (Some 0, None, root_only)"
    by (simp add: root_only_def Node_new_def Platform_Alloc_def init_state_def)
  have script: "alloc_script (init_state [Some zeroed, Some zeroed]) = Some zeroed # [Some zeroed]"
    by (simp add: init_state_def)
  have z: "parent zeroed = None"
    by (simp add: zeroed_def)
  show ?thesis
    using Node_new_fresh [OF new script] new z by simp
qed

text \<open>
  C4 as the spec states it has every freshly constructed Node hold an absent parent.
  On storage whose parent field held the address 99, a successful \<^verbatim>\<open>Node_new\<close>
  returns a Node with an empty container and that address as its parent.
\<close>

theorem Node_new_fresh_counterexample:
  "fst (Node_new (Some 10) (init_state [Some used_storage])) = Some 0
   \<and> Node_hasChildren fresh_on_used (Some 0) = Inr False
   \<and> parent_of fresh_on_used (Some 0) = Inr (Some 99)
   \<and> parent_of fresh_on_used (Some 0) \<noteq> Inr None"
  by (simp add: fresh_on_used_def Node_new_def Platform_Alloc_def init_state_def update_node_def
        Array_new_def used_storage_def Node_hasChildren_def parent_of_def deref_def
        Array_length_def)

section \<open>Appending a child\<close>

lemma Node_addChild_ok:
  assumes "heap_ok s" "nodes s a = Some nd" "children nd = Some xs"
    and "alloc_script s = Some raw # rest"
  shows "Node_addChild (Some a) tok s =
           Inr (None,
                s\<lparr>nodes := (nodes s)(next_addr s \<mapsto> raw\<lparr>token := tok, children := Some []\<rparr>,
                                      a \<mapsto> nd\<lparr>children := Some (xs @ [Some (next_addr s)])\<rparr>),
                  next_addr := Suc (next_addr s), alloc_script := rest\<rparr>)"
proof -
  have "a \<noteq> next_addr s"
    using heap_ok_fresh [OF assms(1,2)] by simp
  then show ?thesis
    using assms(2,3)
    by (simp add: Node_addChild_def Node_new_ok [OF assms(4)] deref_def Array_push_def
          update_node_def)
qed

lemma Node_addChild_fail:
  assumes "nodes s a = Some nd" "children nd = Some xs"
    and "fst (Platform_Alloc s) = None"
  shows "Node_addChild (Some a) tok s =
           Inr (tok, (snd (Platform_Alloc s))
                       \<lparr>nodes := (nodes s)(a \<mapsto> nd\<lparr>children := Some (xs @ [None])\<rparr>)\<rparr>)"
  using assms(1,2)
  by (simp add: Node_addChild_def Node_new_fail [OF assms(3)] deref_def Array_push_def
        update_node_def Platform_Alloc_fail_frame [OF assms(3)])

text \<open>
  C5: for every live Node \<open>n\<close> with its container in place and every handle \<open>tok\<close>, when
  the allocation succeeds \<^verbatim>\<open>Node_addChild\<close> returns, with the handle cleared, and
  afterwards \<^verbatim>\<open>Node_hasChildren\<close> is true, \<^verbatim>\<open>Node_getToken\<close> of
  \<^verbatim>\<open>Node_getLastChild\<close> is the unit handed in, and the length of the children
  container has grown by exactly one.
\<close>

theorem Node_addChild_appends:
  assumes "heap_ok s" and "deref s n = Inr nd" and "children nd = Some xs"
    and "alloc_script s = Some raw # rest"
  shows "\<exists>s' c. Node_addChild n tok s = Inr (None, s')
           \<and> Node_hasChildren s' n = Inr True
           \<and> Node_getLastChild s' n = Inr c
           \<and> Node_getToken s' c = Inr tok
           \<and> Node_count s n = Inr (int (length xs))
           \<and> Node_count s' n = Inr (int (length xs) + 1)"
proof -
  from assms(2) obtain a where n: "n = Some a" and na: "nodes s a = Some nd"
    using deref_live by blast
  have neq: "a \<noteq> next_addr s"
    using heap_ok_fresh [OF assms(1) na] by simp
  show ?thesis
    unfolding n Node_addChild_ok [OF assms(1) na assms(3,4)]
    using na assms(3) neq
    by (simp add: Node_hasChildren_def Node_getLastChild_def Node_getToken_def Node_count_def
          deref_def Array_length_def Array_getObject_def)
qed

theorem Node_addChild_appends_witness:
  "heap_ok root_only
   \<and> (\<exists>s' c. Node_addChild (Some 0) (Some 11) root_only = Inr (None, s')
         \<and> Node_hasChildren s' (Some 0) = Inr True
         \<and> Node_getLastChild s' (Some 0) = Inr c
         \<and> Node_getToken s' c = Inr (Some 11)
         \<and> Node_count root_only (Some 0) = Inr 0
         \<and> Node_count s' (Some 0) = Inr 1)"
proof -
  have d: "deref root_only (Some 0)
             = Inr \<lparr>token = Some 10, parent = None, children = Some []\<rparr>"
    by (simp add: root_only_eq deref_def)
  have script: "alloc_script root_only = Some zeroed # []"
    by (simp add: root_only_eq)
  show ?thesis
    using Node_addChild_appends [OF heap_ok_root_only d _ script, of "[]" "Some 11"]
      heap_ok_root_only
    by auto
qed

text \<open>
  C6, as the source has it: \<^verbatim>\<open>Node_addChild\<close> does not set the parent reference of
  the child it appends: nothing is written into the child's parent field, which holds
  what the allocator's fresh storage held there, null for zero-filled storage. Of \<open>n\<close>
  only the children container changes: its token and parent fields are as before,
  whether the allocation succeeded or not.
\<close>

theorem Node_addChild_leaves_parent:
  assumes "heap_ok s" and "deref s n = Inr nd" and "children nd = Some xs"
  shows "\<exists>tok' s' nd'. Node_addChild n tok s = Inr (tok', s')
           \<and> deref s' n = Inr nd' \<and> token nd' = token nd \<and> parent nd' = parent nd
           \<and> (\<forall>raw rest. alloc_script s = Some raw # rest \<longrightarrow>
                (\<exists>c. Node_getLastChild s' n = Inr (Some c)
                   \<and> parent_of s' (Some c) = Inr (parent raw)))"
proof -
  from assms(2) obtain a where n: "n = Some a" and na: "nodes s a = Some nd"
    using deref_live by blast
  show ?thesis
  proof (cases s rule: Platform_Alloc_cases)
    case fail
    then have "alloc_script s = [] \<or> (\<exists>rest. alloc_script s = None # rest)"
      by (auto simp: Platform_Alloc_def split: list.splits option.splits)
    then show ?thesis
      unfolding n Node_addChild_fail [OF na assms(3) fail]
      by (auto simp: deref_def)
  next
    case (ok raw rest)
    have neq: "a \<noteq> next_addr s"
      using heap_ok_fresh [OF assms(1) na] by simp
    show ?thesis
      unfolding n Node_addChild_ok [OF assms(1) na assms(3) ok]
      using ok neq
      by (simp add: Node_getLastChild_def parent_of_def deref_def Array_length_def
            Array_getObject_def)
  qed
qed

theorem Node_addChild_leaves_parent_witness:
  "heap_ok root_only
   \<and> (\<exists>tok' s' c. Node_addChild (Some 0) (Some 11) root_only = Inr (tok', s')
         \<and> Node_getToken s' (Some 0) = Inr (Some 10)
         \<and> parent_of s' (Some 0) = Inr None
         \<and> Node_getLastChild s' (Some 0) = Inr (Some c)
         \<and> parent_of s' (Some c) = Inr None)"
proof -
  have d: "deref root_only (Some 0)
             = Inr \<lparr>token = Some 10, parent = None, children = Some []\<rparr>"
    by (simp add: root_only_eq deref_def)
  have script: "alloc_script root_only = Some zeroed # []"
    by (simp add: root_only_eq)
  from Node_addChild_leaves_parent [OF heap_ok_root_only d, of "[]" "Some 11"]
  obtain tok' s' nd' where r: "Node_addChild (Some 0) (Some 11) root_only = Inr (tok', s')"
    and nd': "deref s' (Some 0) = Inr nd'" "token nd' = Some 10" "parent nd' = None"
    and ch: "\<forall>raw rest. alloc_script root_only = Some raw # rest \<longrightarrow>
                (\<exists>c. Node_getLastChild s' (Some 0) = Inr (Some c)
                   \<and> parent_of s' (Some c) = Inr (parent raw))"
    by auto
  from ch script obtain c where c: "Node_getLastChild s' (Some 0) = Inr (Some c)"
    "parent_of s' (Some c) = Inr (parent zeroed)"
    by blast
  have "Node_getToken s' (Some 0) = Inr (Some 10)" "parent_of s' (Some 0) = Inr None"
    using nd' by (simp_all add: Node_getToken_def parent_of_def)
  moreover have "parent_of s' (Some c) = Inr None"
    using c(2) by (simp add: zeroed_def)
  ultimately show ?thesis
    using r c(1) heap_ok_root_only by blast
qed

lemma root_then_used_eq:
  "root_then_used
     = \<lparr>nodes = [0 \<mapsto> \<lparr>token = Some 10, parent = None, children = Some []\<rparr>],
        next_addr = 1, alloc_script = [Some used_storage], trace = []\<rparr>"
  by (simp add: root_then_used_def Node_new_def Platform_Alloc_def init_state_def
        update_node_def Array_new_def zeroed_def)

lemma child_on_used_eq:
  "child_on_used
     = \<lparr>nodes = [0 \<mapsto> \<lparr>token = Some 10, parent = None, children = Some [Some 1]\<rparr>,
                 1 \<mapsto> \<lparr>token = Some 11, parent = Some 99, children = Some []\<rparr>],
        next_addr = 2, alloc_script = [], trace = []\<rparr>"
  by (simp add: child_on_used_def root_then_used_eq Node_addChild_def Node_new_def
        Platform_Alloc_def update_node_def Array_new_def Array_push_def deref_def
        used_storage_def fun_upd_twist)

text \<open>
  C6 as the spec states it has the new child's parent field left absent. On a root
  whose next allocation is storage with the address 99 in its parent field,
  \<^verbatim>\<open>Node_addChild\<close> appends a child whose parent is that address.
\<close>

theorem Node_addChild_leaves_parent_counterexample:
  "Node_addChild (Some 0) (Some 11) root_then_used = Inr (None, child_on_used)
   \<and> Node_getLastChild child_on_used (Some 0) = Inr (Some 1)
   \<and> parent_of child_on_used (Some 1) = Inr (Some 99)
   \<and> parent_of child_on_used (Some 1) \<noteq> Inr None"
proof -
  have "Node_addChild (Some 0) (Some 11) root_then_used = Inr (None, child_on_used)"
    unfolding child_on_used_eq
    by (simp add: root_then_used_eq Node_addChild_def Node_new_def Platform_Alloc_def
          update_node_def Array_new_def Array_push_def deref_def used_storage_def fun_upd_twist)
  moreover have "Node_getLastChild child_on_used (Some 0) = Inr (Some 1)"
    by (simp add: child_on_used_eq Node_getLastChild_def deref_def Array_length_def
          Array_getObject_def)
  moreover have "parent_of child_on_used (Some 1) = Inr (Some 99)"
    by (simp add: child_on_used_eq parent_of_def deref_def)
  ultimately show ?thesis by simp
qed

text \<open>
  C10: when the allocation inside \<^verbatim>\<open>Node_addChild\<close> fails, the call still returns
  normally, the caller's handle untouched, and the null pointer that \<^verbatim>\<open>Node_new\<close>
  returned is appended to the children container of \<open>n\<close>: the length grows by one,
  \<^verbatim>\<open>Node_hasChildren\<close> becomes true, and the last child is null.
\<close>

theorem Node_addChild_alloc_failure:
  assumes "deref s n = Inr nd" and "children nd = Some xs"
    and "fst (Platform_Alloc s) = None"
  shows "\<exists>s'. Node_addChild n tok s = Inr (tok, s')
           \<and> Node_iterator s' n = Inr (xs @ [None])
           \<and> Node_getLastChild s' n = Inr None
           \<and> Node_hasChildren s' n = Inr True
           \<and> Node_count s n = Inr (int (length xs))
           \<and> Node_count s' n = Inr (int (length xs) + 1)"
proof -
  from assms(1) obtain a where n: "n = Some a" and na: "nodes s a = Some nd"
    using deref_live by blast
  show ?thesis
    unfolding n Node_addChild_fail [OF na assms(2,3)]
    using na assms(2)
    by (simp add: Node_hasChildren_def Node_getLastChild_def Node_iterator_def Node_count_def
          deref_def Array_length_def Array_getObject_def NodeIterator_new_def)
qed

theorem Node_addChild_alloc_failure_witness:
  "fst (Platform_Alloc root_only_exhausted) = None
   \<and> Node_hasChildren root_only_exhausted (Some 0) = Inr False
   \<and> (\<exists>s'. Node_addChild (Some 0) (Some 11) root_only_exhausted = Inr (Some 11, s')
         \<and> Node_iterator s' (Some 0) = Inr [None]
         \<and> Node_getLastChild s' (Some 0) = Inr None
         \<and> Node_hasChildren s' (Some 0) = Inr True
         \<and> Node_count s' (Some 0) = Inr 1)"
proof -
  have d: "deref root_only_exhausted (Some 0)
             = Inr \<lparr>token = Some 10, parent = None, children = Some []\<rparr>"
    by (simp add: root_only_exhausted_eq deref_def)
  have f: "fst (Platform_Alloc root_only_exhausted) = None"
    by (simp add: root_only_exhausted_eq Platform_Alloc_def)
  have e: "Node_hasChildren root_only_exhausted (Some 0) = Inr False"
    by (simp add: Node_hasChildren_def d Array_length_def)
  show ?thesis
    using Node_addChild_alloc_failure [OF d _ f, of "[]" "Some 11"] f e by auto
qed

section \<open>The last child\<close>

text \<open>
  C7: for every live Node \<open>n\<close> with its container in place, \<^verbatim>\<open>Node_getLastChild\<close>
  returns the null pointer when the container is empty and otherwise its last element,
  the child appended most recently; the result is that of indexing the container at
  its length minus one. The store is only read.
\<close>

theorem Node_getLastChild_result:
  assumes "deref s n = Inr nd" and "children nd = Some xs"
  shows "Node_getLastChild s n = Inr (if xs = [] then None else last xs)
       \<and> Node_getLastChild s n = Array_getObject (children nd) (int (length xs) - 1)"
  using assms
  by (auto simp: Node_getLastChild_def Array_length_def Array_getObject_def last_conv_nth
        nat_diff_distrib')

theorem Node_getLastChild_result_witness:
  "Node_getLastChild root_only (Some 0) = Inr None
   \<and> Node_getLastChild root_only (Some 0) = Array_getObject (Some []) (- 1)"
proof -
  have d: "deref root_only (Some 0)
             = Inr \<lparr>token = Some 10, parent = None, children = Some []\<rparr>"
    by (simp add: root_only_eq deref_def)
  show ?thesis
    using Node_getLastChild_result [OF d, of "[]"] by auto
qed

section \<open>The parent reference\<close>

text \<open>
  \<^verbatim>\<open>Node_setParent\<close> is the only operation that writes a Node other than null into
  a parent field.
\<close>

lemma Node_setParent_result:
  assumes "deref s n = Inr nd"
  shows "\<exists>s'. Node_setParent n p s = Inr s' \<and> parent_of s' n = Inr p"
  using assms deref_live [OF assms]
  by (auto simp: Node_setParent_def parent_of_def deref_def update_node_def)

section \<open>The iterator\<close>

lemma add_all_iterator:
  assumes "heap_ok s" and "nodes s a = Some nd" and "children nd = Some xs"
    and "length toks \<le> length (alloc_script s)"
    and "None \<notin> set (take (length toks) (alloc_script s))"
  shows "\<exists>s'. add_all (Some a) toks s = Inr s'
           \<and> Node_iterator s' (Some a)
               = Inr (xs @ map Some [next_addr s ..< next_addr s + length toks])
           \<and> (\<forall>i < length toks. Node_getToken s' (Some (next_addr s + i)) = Inr (toks ! i))
           \<and> (\<forall>b. b < next_addr s \<and> b \<noteq> a \<longrightarrow> nodes s' b = nodes s b)
           \<and> heap_ok s' \<and> next_addr s' = next_addr s + length toks"
  using assms
proof (induction toks arbitrary: s nd xs)
  case Nil
  then show ?case
    by (simp add: Node_iterator_def deref_def NodeIterator_new_def)
next
  case (Cons tok toks)
  from Cons.prems(4,5) obtain raw rest where script: "alloc_script s = Some raw # rest"
    by (cases "alloc_script s"; cases "hd (alloc_script s)") auto
  define c where "c = next_addr s"
  define nd1 where "nd1 = nd\<lparr>children := Some (xs @ [Some c])\<rparr>"
  define s1 where "s1 = s\<lparr>nodes := (nodes s)(c \<mapsto> raw\<lparr>token := tok, children := Some []\<rparr>,
                                      a \<mapsto> nd1),
                  next_addr := Suc c, alloc_script := rest\<rparr>"
  have add: "Node_addChild (Some a) tok s = Inr (None, s1)"
    unfolding s1_def nd1_def c_def
    by (rule Node_addChild_ok [OF Cons.prems(1,2,3) script])
  have ac: "a < c"
    unfolding c_def by (rule heap_ok_fresh [OF Cons.prems(1,2)])
  have ok1: "heap_ok s1"
    using Cons.prems(1) ac by (auto simp: heap_ok_def s1_def c_def)
  have na1: "nodes s1 a = Some nd1" by (simp add: s1_def)
  have ch1: "children nd1 = Some (xs @ [Some c])" by (simp add: nd1_def)
  have l1: "length toks \<le> length (alloc_script s1)"
    and t1: "None \<notin> set (take (length toks) (alloc_script s1))"
    using Cons.prems(4,5) script by (simp_all add: s1_def)
  from Cons.IH [OF ok1 na1 ch1 l1 t1]
  obtain s' where r: "add_all (Some a) toks s1 = Inr s'"
    and it: "Node_iterator s' (Some a)
               = Inr ((xs @ [Some c]) @ map Some [next_addr s1 ..< next_addr s1 + length toks])"
    and tk: "\<forall>i < length toks. Node_getToken s' (Some (next_addr s1 + i)) = Inr (toks ! i)"
    and fr: "\<forall>b. b < next_addr s1 \<and> b \<noteq> a \<longrightarrow> nodes s' b = nodes s1 b"
    and ok': "heap_ok s'" and nx: "next_addr s' = next_addr s1 + length toks"
    by blast
  have n1: "next_addr s1 = Suc c" by (simp add: s1_def)
  have "add_all (Some a) (tok # toks) s = Inr s'"
    by (simp add: add r)
  moreover have "Node_iterator s' (Some a)
               = Inr (xs @ map Some [next_addr s ..< next_addr s + length (tok # toks)])"
  proof -
    have "[next_addr s ..< next_addr s + length (tok # toks)]
            = c # [Suc c ..< Suc c + length toks]"
      unfolding c_def by (subst upt_rec) simp
    then show ?thesis
      unfolding it n1 by simp
  qed
  moreover have "\<forall>i < length (tok # toks).
                   Node_getToken s' (Some (next_addr s + i)) = Inr ((tok # toks) ! i)"
  proof (intro allI impI)
    fix i assume i: "i < length (tok # toks)"
    show "Node_getToken s' (Some (next_addr s + i)) = Inr ((tok # toks) ! i)"
    proof (cases i)
      case 0
      have "nodes s' c = nodes s1 c"
        using fr ac by (simp add: n1)
      then show ?thesis
        using ac by (simp add: 0 Node_getToken_def deref_def s1_def c_def [symmetric])
    next
      case (Suc j)
      then show ?thesis
        using tk i by (simp add: n1 c_def)
    qed
  qed
  moreover have "\<forall>b. b < next_addr s \<and> b \<noteq> a \<longrightarrow> nodes s' b = nodes s b"
    using fr by (auto simp: n1 s1_def c_def)
  moreover have "next_addr s' = next_addr s + length (tok # toks)"
    using nx by (simp add: n1 c_def)
  ultimately show ?case
    using ok' by blast
qed

text \<open>
  C8: for every live Node \<open>n\<close> whose container holds \<open>xs\<close>, after \<open>k\<close> successive
  \<^verbatim>\<open>Node_addChild\<close> calls on \<open>n\<close>, every allocation succeeding,
  \<^verbatim>\<open>Node_iterator\<close> yields \<open>xs\<close> followed by exactly the \<open>k\<close> new children in
  the order of the calls: the sequence of new children has length \<open>k\<close>, its elements
  are distinct, and the \<open>i\<close>-th of them holds the \<open>i\<close>-th unit handed in. For a freshly
  constructed Node, \<open>xs\<close> is empty and the sequence has length \<open>k\<close>.
\<close>

theorem Node_iterator_append_order:
  assumes "heap_ok s" and "deref s n = Inr nd" and "children nd = Some xs"
    and "length toks \<le> length (alloc_script s)"
    and "None \<notin> set (take (length toks) (alloc_script s))"
  shows "\<exists>s' cs. add_all n toks s = Inr s'
           \<and> Node_iterator s n = Inr xs
           \<and> Node_iterator s' n = Inr (xs @ cs)
           \<and> length cs = length toks \<and> distinct cs
           \<and> (\<forall>i < length toks. Node_getToken s' (cs ! i) = Inr (toks ! i))"
proof -
  from assms(2) obtain a where n: "n = Some a" and na: "nodes s a = Some nd"
    using deref_live by blast
  define cs where "cs = map Some [next_addr s ..< next_addr s + length toks]"
  from add_all_iterator [OF assms(1) na assms(3,4,5)] obtain s'
    where r: "add_all (Some a) toks s = Inr s'"
      and it: "Node_iterator s' (Some a) = Inr (xs @ cs)"
      and tk: "\<forall>i < length toks. Node_getToken s' (Some (next_addr s + i)) = Inr (toks ! i)"
    unfolding cs_def by blast
  have "Node_iterator s n = Inr xs"
    using assms(2,3) by (simp add: Node_iterator_def NodeIterator_new_def)
  moreover have "length cs = length toks"
    by (simp add: cs_def)
  moreover have "distinct cs"
    by (simp add: cs_def distinct_map)
  moreover have "\<forall>i < length toks. Node_getToken s' (cs ! i) = Inr (toks ! i)"
    using tk by (simp add: cs_def)
  ultimately show ?thesis
    using r it unfolding n by blast
qed

lemma root_three_to_come_eq:
  "root_three_to_come
     = \<lparr>nodes = [0 \<mapsto> \<lparr>token = Some 10, parent = None, children = Some []\<rparr>],
        next_addr = 1, alloc_script = [Some zeroed, Some zeroed, Some zeroed], trace = []\<rparr>"
  by (simp add: root_three_to_come_def Node_new_def Platform_Alloc_def init_state_def
        update_node_def Array_new_def zeroed_def)

theorem Node_iterator_append_order_witness:
  "heap_ok root_three_to_come
   \<and> (\<exists>s' cs. add_all (Some 0) [Some 11, Some 12, Some 13] root_three_to_come = Inr s'
         \<and> Node_iterator root_three_to_come (Some 0) = Inr []
         \<and> Node_iterator s' (Some 0) = Inr cs
         \<and> length cs = 3 \<and> distinct cs
         \<and> Node_getToken s' (cs ! 0) = Inr (Some 11)
         \<and> Node_getToken s' (cs ! 1) = Inr (Some 12)
         \<and> Node_getToken s' (cs ! 2) = Inr (Some 13))"
proof -
  let ?toks = "[Some 11, Some 12, Some 13] :: Token option list"
  have ok: "heap_ok root_three_to_come"
    by (auto simp: heap_ok_def root_three_to_come_eq)
  have d: "deref root_three_to_come (Some 0)
             = Inr \<lparr>token = Some 10, parent = None, children = Some []\<rparr>"
    by (simp add: root_three_to_come_eq deref_def)
  have l: "length ?toks \<le> length (alloc_script root_three_to_come)"
    and no: "None \<notin> set (take (length ?toks) (alloc_script root_three_to_come))"
    by (simp_all add: root_three_to_come_eq)
  from Node_iterator_append_order [OF ok d _ l no, of "[]"]
  obtain s' cs where r: "add_all (Some 0) ?toks root_three_to_come = Inr s'"
    and i0: "Node_iterator root_three_to_come (Some 0) = Inr []"
    and i1: "Node_iterator s' (Some 0) = Inr ([] @ cs)"
    and len: "length cs = length ?toks" and dist: "distinct cs"
    and tk: "\<forall>i < length ?toks. Node_getToken s' (cs ! i) = Inr (?toks ! i)"
    by auto
  have "Node_getToken s' (cs ! 0) = Inr (Some 11)"
    "Node_getToken s' (cs ! 1) = Inr (Some 12)"
    "Node_getToken s' (cs ! 2) = Inr (Some 13)"
    using tk by simp_all
  moreover have "length cs = 3" using len by simp
  ultimately show ?thesis
    using ok r i0 i1 dist by auto
qed

section \<open>Trees in the store\<close>

lemma tree_at_frame:
  "tree_at s tr \<Longrightarrow> (\<forall>x \<in> set (addrs tr). nodes s' x = nodes s x) \<Longrightarrow> tree_at s' tr"
  by (induction tr) auto

lemma distinct_kid:
  "distinct (concat (map addrs ks)) \<Longrightarrow> k \<in> set ks \<Longrightarrow> distinct (addrs k)"
  by (induction ks) auto

lemma root_in_addrs: "root_addr tr \<in> set (addrs tr)"
  by (cases tr) simp

lemma root_addr_graft: "root_addr (graft n leaf tr) = root_addr tr"
  by (cases tr) simp

lemma graft_absent: "n \<notin> set (addrs tr) \<Longrightarrow> graft n leaf tr = tr"
  by (induction tr) (auto intro: map_idI)

lemma tree_at_live:
  "tree_at s tr \<Longrightarrow> n \<in> set (addrs tr) \<Longrightarrow>
     \<exists>t p xs. nodes s n = Some \<lparr>token = t, parent = p, children = Some xs\<rparr>"
  by (induction tr) auto

lemma descend_in_tree:
  "tree_at s tr \<Longrightarrow> descend s (Some (root_addr tr)) path = Inr (Some n) \<Longrightarrow>
     n \<in> set (addrs tr)"
proof (induction path arbitrary: tr)
  case Nil
  then show ?case using root_in_addrs [of tr] by simp
next
  case (Cons i path)
  obtain a t p ks where tr: "tr = HT a t p ks" by (cases tr)
  have it: "Node_iterator s (Some a) = Inr (map (\<lambda>k. Some (root_addr k)) ks)"
    using Cons.prems(1) by (simp add: tr Node_iterator_def deref_def NodeIterator_new_def)
  show ?case
  proof (cases "i < length ks")
    case True
    then have k: "ks ! i \<in> set ks" by simp
    have "descend s (Some (root_addr (ks ! i))) path = Inr (Some n)"
      using Cons.prems(2) True by (simp add: tr it)
    moreover have "tree_at s (ks ! i)"
      using Cons.prems(1) k by (simp add: tr)
    ultimately have "n \<in> set (addrs (ks ! i))" by (rule Cons.IH [rotated])
    then show ?thesis using k by (auto simp: tr)
  next
    case False
    then show ?thesis using Cons.prems(2) by (simp add: tr it)
  qed
qed

lemma graft_kids:
  assumes "n \<in> set (concat (map addrs ks))" and "distinct (concat (map addrs ks))"
  shows "\<exists>ks1 k ks2. ks = ks1 @ k # ks2 \<and> n \<in> set (addrs k)
           \<and> map (graft n leaf) ks = ks1 @ graft n leaf k # ks2"
proof -
  from assms(1) obtain k where k: "k \<in> set ks" "n \<in> set (addrs k)" by auto
  then obtain ks1 ks2 where ks: "ks = ks1 @ k # ks2" by (meson split_list)
  have "\<forall>k' \<in> set ks1 \<union> set ks2. n \<notin> set (addrs k')"
    using assms(2) k(2) unfolding ks by auto
  then have "map (graft n leaf) ks1 = ks1" "map (graft n leaf) ks2 = ks2"
    by (auto intro!: map_idI graft_absent)
  then show ?thesis using ks k(2) by auto
qed

lemma graft_addrs:
  "n \<in> set (addrs tr) \<Longrightarrow> distinct (addrs tr) \<Longrightarrow>
     mset (addrs (graft n leaf tr)) = mset (addrs tr) + mset (addrs leaf)"
proof (induction tr)
  case (HT a t p ks)
  show ?case
  proof (cases "a = n")
    case True
    then show ?thesis by simp
  next
    case False
    then have n: "n \<in> set (concat (map addrs ks))" and d: "distinct (concat (map addrs ks))"
      using HT.prems by auto
    from graft_kids [OF n d, of leaf] obtain ks1 k ks2
      where ks: "ks = ks1 @ k # ks2" and nk: "n \<in> set (addrs k)"
        and g: "map (graft n leaf) ks = ks1 @ graft n leaf k # ks2"
      by blast
    have "distinct (addrs k)" using d unfolding ks by simp
    then have "mset (addrs (graft n leaf k)) = mset (addrs k) + mset (addrs leaf)"
      using HT.IH [of k] nk ks by simp
    then show ?thesis
      using False by (simp add: g) (simp add: ks)
  qed
qed

lemma graft_units:
  "n \<in> set (addrs tr) \<Longrightarrow> distinct (addrs tr) \<Longrightarrow>
     mset (tree_units (graft n leaf tr)) = mset (tree_units tr) + mset (tree_units leaf)"
proof (induction tr)
  case (HT a t p ks)
  show ?case
  proof (cases "a = n")
    case True
    then show ?thesis by simp
  next
    case False
    then have n: "n \<in> set (concat (map addrs ks))" and d: "distinct (concat (map addrs ks))"
      using HT.prems by auto
    from graft_kids [OF n d, of leaf] obtain ks1 k ks2
      where ks: "ks = ks1 @ k # ks2" and nk: "n \<in> set (addrs k)"
        and g: "map (graft n leaf) ks = ks1 @ graft n leaf k # ks2"
      by blast
    have "distinct (addrs k)" using d unfolding ks by simp
    then have "mset (tree_units (graft n leaf k)) = mset (tree_units k) + mset (tree_units leaf)"
      using HT.IH [of k] nk ks by simp
    then show ?thesis
      using False by (simp add: g) (simp add: ks)
  qed
qed

lemma graft_tree_at:
  assumes "tree_at s tr" and "distinct (addrs tr)" and "n \<in> set (addrs tr)"
    and "tree_at s' leaf"
    and "\<forall>x \<in> set (addrs tr). x \<noteq> n \<longrightarrow> nodes s' x = nodes s x"
    and "nodes s' n = map_option
            (\<lambda>nd. nd\<lparr>children := map_option (\<lambda>xs. xs @ [Some (root_addr leaf)]) (children nd)\<rparr>)
            (nodes s n)"
  shows "tree_at s' (graft n leaf tr)"
  using assms(1,2,3,5)
proof (induction tr)
  case (HT a t p ks)
  have na: "nodes s a = Some \<lparr>token = t, parent = p,
                  children = Some (map (\<lambda>k. Some (root_addr k)) ks)\<rparr>"
    using HT.prems(1) by simp
  show ?case
  proof (cases "a = n")
    case True
    have "\<forall>k \<in> set ks. tree_at s' k"
    proof
      fix k assume k: "k \<in> set ks"
      then have "tree_at s k" using HT.prems(1) by simp
      moreover have "\<forall>x \<in> set (addrs k). nodes s' x = nodes s x"
      proof
        fix x assume x: "x \<in> set (addrs k)"
        then have "x \<noteq> n" using HT.prems(2) k True by auto
        moreover have "x \<in> set (addrs (HT a t p ks))" using x k by auto
        ultimately show "nodes s' x = nodes s x" using HT.prems(4) by blast
      qed
      ultimately show "tree_at s' k" by (rule tree_at_frame)
    qed
    then show ?thesis
      using True na assms(4,6) by simp
  next
    case False
    have "\<forall>k \<in> set ks. tree_at s' (graft n leaf k)"
    proof
      fix k assume k: "k \<in> set ks"
      then have tk: "tree_at s k" and dk: "distinct (addrs k)"
        using HT.prems(1,2) by (auto intro: distinct_kid)
      have fr: "\<forall>x \<in> set (addrs k). x \<noteq> n \<longrightarrow> nodes s' x = nodes s x"
        using HT.prems(4) k by auto
      show "tree_at s' (graft n leaf k)"
      proof (cases "n \<in> set (addrs k)")
        case True
        then show ?thesis using HT.IH [OF k tk dk _ fr] by simp
      next
        case False
        then have "\<forall>x \<in> set (addrs k). nodes s' x = nodes s x" using fr by auto
        with tk have "tree_at s' k" by (rule tree_at_frame)
        then show ?thesis using False by (simp add: graft_absent)
      qed
    qed
    moreover have "nodes s' a = nodes s a"
      using HT.prems(4) False by simp
    ultimately show ?thesis
      using False na by (simp add: root_addr_graft comp_def)
  qed
qed

section \<open>Destruction\<close>

text \<open>
  The loop of \<^verbatim>\<open>Node_free\<close> on a Node whose remaining children are the trees
  \<open>ks\<close>, given that \<^verbatim>\<open>Node_free\<close> is right on each of them.
\<close>

lemma Node_free_loop_tree:
  assumes IH: "\<And>c s k. c \<in> set ks \<Longrightarrow> tree_at s c \<Longrightarrow> distinct (addrs c) \<Longrightarrow> need c \<le> k \<Longrightarrow>
            Node_free k (Some (root_addr c)) s
              = Inr (None, s\<lparr>nodes := nodes s |` (- set (addrs c)),
                              trace := trace s @ destroy_order c\<rparr>)"
    and "nodes s a = Some \<lparr>token = t, parent = p,
                            children = Some (map (\<lambda>k. Some (root_addr k)) ks)\<rparr>"
    and "\<forall>c \<in> set ks. tree_at s c"
    and "distinct (a # concat (map addrs ks))"
    and "needs ks \<le> k"
  shows "Node_free_loop k a s
           = Inr (s\<lparr>nodes := (nodes s |` (- set (concat (map addrs ks))))
                               (a \<mapsto> \<lparr>token = t, parent = p, children = Some []\<rparr>),
                    trace := trace s @ concat (map destroy_order ks)\<rparr>)"
  using assms
proof (induction ks arbitrary: s k)
  case Nil
  then obtain j where k: "k = Suc j" by (cases k) auto
  have m: "(nodes s)(a \<mapsto> \<lparr>token = t, parent = p, children = Some []\<rparr>) = nodes s"
    using Nil.prems(2) by (simp add: map_upd_triv)
  have "Node_free_loop k a s
          = Inr (update_node a (\<lambda>n. n\<lparr>children := Some []\<rparr>) s)"
    using Nil.prems(2) by (simp add: k deref_def Array_shift_def)
  also have "update_node a (\<lambda>n. n\<lparr>children := Some []\<rparr>) s = s"
    using Nil.prems(2) by (simp add: update_node_def m)
  finally show ?case
    by (simp add: m)
next
  case (Cons c cs)
  from Cons.prems(5) obtain j where k: "k = Suc j" and nc: "need c \<le> j" and ncs: "needs cs \<le> j"
    by (cases k) auto
  have a_c: "a \<notin> set (addrs c)" and a_cs: "a \<notin> set (concat (map addrs cs))"
    and dc: "distinct (addrs c)" and dcs: "distinct (a # concat (map addrs cs))"
    and disj: "set (addrs c) \<inter> set (concat (map addrs cs)) = {}"
    using Cons.prems(4) by auto
  define s1 where "s1 = update_node a (\<lambda>n. n\<lparr>children := Some (map (\<lambda>k. Some (root_addr k)) cs)\<rparr>) s"
  have n1: "nodes s1 = (nodes s)(a \<mapsto> \<lparr>token = t, parent = p,
                  children = Some (map (\<lambda>k. Some (root_addr k)) cs)\<rparr>)"
    and t1: "trace s1 = trace s"
    using Cons.prems(2) by (simp_all add: s1_def update_node_def)
  have tc: "tree_at s1 c"
  proof (rule tree_at_frame)
    show "tree_at s c" using Cons.prems(3) by simp
    show "\<forall>x \<in> set (addrs c). nodes s1 x = nodes s x"
      using a_c by (auto simp: n1)
  qed
  define s2 where "s2 = s1\<lparr>nodes := nodes s1 |` (- set (addrs c)),
                  trace := trace s1 @ destroy_order c\<rparr>"
  have f: "Node_free j (Some (root_addr c)) s1 = Inr (None, s2)"
    unfolding s2_def by (rule Cons.prems(1)) (use tc dc nc in simp_all)
  have n2: "nodes s2 = nodes s1 |` (- set (addrs c))"
    and t2: "trace s2 = trace s @ destroy_order c"
    by (simp_all add: s2_def t1)
  have na2: "nodes s2 a = Some \<lparr>token = t, parent = p,
                  children = Some (map (\<lambda>k. Some (root_addr k)) cs)\<rparr>"
    using a_c by (simp add: n2 n1)
  have tcs: "\<forall>c' \<in> set cs. tree_at s2 c'"
  proof
    fix c' assume c': "c' \<in> set cs"
    then have "tree_at s c'" using Cons.prems(3) by simp
    moreover have "\<forall>x \<in> set (addrs c'). nodes s2 x = nodes s x"
      using c' disj a_cs by (auto simp: n2 n1 restrict_map_def)
    ultimately show "tree_at s2 c'" by (rule tree_at_frame)
  qed
  have l: "Node_free_loop j a s2
             = Inr (s2\<lparr>nodes := (nodes s2 |` (- set (concat (map addrs cs))))
                               (a \<mapsto> \<lparr>token = t, parent = p, children = Some []\<rparr>),
                    trace := trace s2 @ concat (map destroy_order cs)\<rparr>)"
  proof (rule Cons.IH)
    fix c' s' k'
    assume "c' \<in> set cs" "tree_at s' c'" "distinct (addrs c')" "need c' \<le> k'"
    then show "Node_free k' (Some (root_addr c')) s'
              = Inr (None, s'\<lparr>nodes := nodes s' |` (- set (addrs c')),
                              trace := trace s' @ destroy_order c'\<rparr>)"
      using Cons.prems(1) [of c' s' k'] by simp
  qed (rule na2, rule tcs, rule dcs, rule ncs)
  have step: "Node_free_loop k a s = Node_free_loop j a s2"
    using Cons.prems(2) f by (simp add: k deref_def Array_shift_def s1_def)
  have eqn: "(nodes s2 |` (- set (concat (map addrs cs))))
               (a \<mapsto> \<lparr>token = t, parent = p, children = Some []\<rparr>)
           = (nodes s |` (- set (concat (map addrs (c # cs)))))
               (a \<mapsto> \<lparr>token = t, parent = p, children = Some []\<rparr>)"
    by (rule ext) (auto simp: n2 n1 restrict_map_def)
  have "s2\<lparr>nodes := (nodes s |` (- set (concat (map addrs (c # cs)))))
               (a \<mapsto> \<lparr>token = t, parent = p, children = Some []\<rparr>),
            trace := trace s2 @ concat (map destroy_order cs)\<rparr>
      = s\<lparr>nodes := (nodes s |` (- set (concat (map addrs (c # cs)))))
               (a \<mapsto> \<lparr>token = t, parent = p, children = Some []\<rparr>),
            trace := trace s @ concat (map destroy_order (c # cs))\<rparr>"
    by (simp add: s2_def s1_def update_node_def)
  then show ?case
    unfolding step l eqn by (simp only:)
qed

lemma Node_free_tree:
  "tree_at s tr \<Longrightarrow> distinct (addrs tr) \<Longrightarrow> need tr \<le> k \<Longrightarrow>
     Node_free k (Some (root_addr tr)) s
       = Inr (None, s\<lparr>nodes := nodes s |` (- set (addrs tr)),
                       trace := trace s @ destroy_order tr\<rparr>)"
proof (induction tr arbitrary: s k)
  case (HT a t p ks)
  from HT.prems(3) obtain j where k: "k = Suc j" and nks: "needs ks \<le> j"
    by (cases k) auto
  have na: "nodes s a = Some \<lparr>token = t, parent = p,
                  children = Some (map (\<lambda>k. Some (root_addr k)) ks)\<rparr>"
    and tks: "\<forall>c \<in> set ks. tree_at s c"
    using HT.prems(1) by auto
  have tf: "Token_free t (trace s) = (None, trace s @ map Token_Released (units [t]))"
    by (cases t) (simp_all add: Token_free_def)
  define s1 where "s1 = update_node a (\<lambda>n. n\<lparr>token := None\<rparr>)
               (s\<lparr>trace := trace s @ map Token_Released (units [t])\<rparr>)"
  have n1: "nodes s1 = (nodes s)(a \<mapsto> \<lparr>token = None, parent = p,
                  children = Some (map (\<lambda>k. Some (root_addr k)) ks)\<rparr>)"
    and t1: "trace s1 = trace s @ map Token_Released (units [t])"
    using na by (simp_all add: s1_def update_node_def)
  have a_ks: "a \<notin> set (concat (map addrs ks))"
    and d_ks: "distinct (a # concat (map addrs ks))"
    using HT.prems(2) by simp_all
  have tks1: "\<forall>c \<in> set ks. tree_at s1 c"
  proof
    fix c assume c: "c \<in> set ks"
    then have "tree_at s c" using tks by simp
    moreover have "\<forall>x \<in> set (addrs c). nodes s1 x = nodes s x"
      using c a_ks by (auto simp: n1)
    ultimately show "tree_at s1 c" by (rule tree_at_frame)
  qed
  define s2 where "s2 = s1\<lparr>nodes := (nodes s1 |` (- set (concat (map addrs ks))))
                               (a \<mapsto> \<lparr>token = None, parent = p, children = Some []\<rparr>),
                    trace := trace s1 @ concat (map destroy_order ks)\<rparr>"
  have l: "Node_free_loop j a s1 = Inr s2"
    unfolding s2_def
  proof (rule Node_free_loop_tree)
    fix c s k
    assume "c \<in> set ks" "tree_at s c" "distinct (addrs c)" "need c \<le> k"
    then show "Node_free k (Some (root_addr c)) s
              = Inr (None, s\<lparr>nodes := nodes s |` (- set (addrs c)),
                              trace := trace s @ destroy_order c\<rparr>)"
      by (rule HT.IH)
  next
    show "nodes s1 a = Some \<lparr>token = None, parent = p,
                            children = Some (map (\<lambda>k. Some (root_addr k)) ks)\<rparr>"
      by (simp add: n1)
  qed (rule tks1, rule d_ks, rule nks)
  have d2: "deref s2 (Some a) = Inr \<lparr>token = None, parent = p, children = Some []\<rparr>"
    by (simp add: deref_def s2_def)
  have d0: "deref s (Some a) = Inr \<lparr>token = t, parent = p,
                  children = Some (map (\<lambda>k. Some (root_addr k)) ks)\<rparr>"
    using na by (simp add: deref_def)
  have l': "Node_free_loop j a (update_node a (\<lambda>n. n\<lparr>token := None\<rparr>)
               (s\<lparr>trace := trace s @ map Token_Released (units [t])\<rparr>)) = Inr s2"
    using l by (simp only: s1_def)
  have "Node_free k (Some a) s
      = (let s3 = update_node a (\<lambda>n. n\<lparr>children := None\<rparr>)
                    (s2\<lparr>trace := trace s2 @ [Array_Released a]\<rparr>);
             s4 = update_node a (\<lambda>n. n\<lparr>parent := None\<rparr>)
                    (s3\<lparr>trace := trace s3 @ [Parent_Cleared a]\<rparr>)
         in Platform_Free a s4)"
    unfolding k Node_free.simps
    by (simp only: d0 tf l' d2 Array_free_def option.case sum.case prod.case Node.simps Let_def)
  also have "\<dots> = Inr (None, s2\<lparr>nodes := (nodes s2)(a := None),
                       trace := trace s2 @ [Array_Released a, Parent_Cleared a, Node_Released a]\<rparr>)"
    by (simp add: update_node_def Platform_Free_def s2_def)
  also have "\<dots> = Inr (None, s\<lparr>nodes := nodes s |` (- set (addrs (HT a t p ks))),
                       trace := trace s @ destroy_order (HT a t p ks)\<rparr>)"
  proof -
    have "(nodes s2)(a := None) = nodes s |` (- set (addrs (HT a t p ks)))"
      by (rule ext) (auto simp: s2_def n1 restrict_map_def)
    then show ?thesis
      by (simp add: s2_def s1_def update_node_def)
  qed
  finally show ?case by simp
qed







section \<open>Release accounting\<close>

lemma units_Cons: "units (h # hs) = units [h] @ units hs"
  by (cases h) simp_all

lemma tree_at_below:
  assumes "tree_at s tr" and "heap_ok s" and "n \<in> set (addrs tr)"
  shows "n < next_addr s"
proof -
  from tree_at_live [OF assms(1,3)] obtain nd where "nodes s n = Some nd" by blast
  with assms(2) show ?thesis by (rule heap_ok_fresh)
qed

lemma Node_addChild_null: "Node_addChild None tok s = Inl Null_Dereference"
  by (simp add: Node_addChild_def deref_def split: prod.splits)

lemma add_children_inv:
  assumes "add_children cmds (Some (root_addr tr)) s = Inr s'"
    and "tree_at s tr" and "distinct (addrs tr)" and "heap_ok s"
    and "length cmds \<le> length (alloc_script s)"
    and "None \<notin> set (take (length cmds) (alloc_script s))"
  shows "\<exists>tr'. tree_at s' tr' \<and> distinct (addrs tr') \<and> root_addr tr' = root_addr tr
           \<and> heap_ok s' \<and> next_addr s' = next_addr s + length cmds
           \<and> mset (addrs tr') = mset (addrs tr) + mset [next_addr s ..< next_addr s + length cmds]
           \<and> (\<forall>x. x < next_addr s \<and> x \<notin> set (addrs tr) \<longrightarrow> nodes s' x = nodes s x)
           \<and> trace s' = trace s
           \<and> mset (tree_units tr') = mset (tree_units tr) + mset (units (map snd cmds))"
  using assms
proof (induction cmds arbitrary: s tr)
  case Nil
  then show ?case by auto
next
  case (Cons cmd cmds)
  obtain path tok where cmd: "cmd = (path, tok)" by (cases cmd)
  from Cons.prems(1) obtain n0 h s1
    where de: "descend s (Some (root_addr tr)) path = Inr n0"
      and ad: "Node_addChild n0 tok s = Inr (h, s1)"
      and rest: "add_children cmds (Some (root_addr tr)) s1 = Inr s'"
    by (auto simp: cmd split: sum.splits)
  from ad obtain n where n0: "n0 = Some n"
    by (cases n0) (simp_all add: Node_addChild_null)
  have n_in: "n \<in> set (addrs tr)"
    using Cons.prems(2) de unfolding n0 by (rule descend_in_tree)
  from tree_at_live [OF Cons.prems(2) n_in] obtain t p xs
    where nn: "nodes s n = Some \<lparr>token = t, parent = p, children = Some xs\<rparr>" by blast
  from Cons.prems(5,6) obtain raw script where script: "alloc_script s = Some raw # script"
    by (cases "alloc_script s"; cases "hd (alloc_script s)") auto
  define c where "c = next_addr s"
  define leaf where "leaf = HT c tok (parent raw) []"
  have s1: "s1 = s\<lparr>nodes := (nodes s)(c \<mapsto> raw\<lparr>token := tok, children := Some []\<rparr>,
                       n \<mapsto> \<lparr>token = t, parent = p, children = Some (xs @ [Some c])\<rparr>),
                    next_addr := Suc c, alloc_script := script\<rparr>"
    using ad unfolding n0 c_def
    by (simp add: Node_addChild_ok [OF Cons.prems(4) nn _ script])
  have below: "\<forall>x \<in> set (addrs tr). x < c"
    unfolding c_def using tree_at_below [OF Cons.prems(2,4)] by blast
  then have c_notin: "c \<notin> set (addrs tr)" and nc: "n \<noteq> c"
    using n_in by auto
  have leaf_at: "tree_at s1 leaf"
    using nc by (cases raw) (simp add: leaf_def s1)
  define tr1 where "tr1 = graft n leaf tr"
  have t1: "tree_at s1 tr1"
    unfolding tr1_def
  proof (rule graft_tree_at [OF Cons.prems(2,3) n_in leaf_at])
    show "\<forall>x \<in> set (addrs tr). x \<noteq> n \<longrightarrow> nodes s1 x = nodes s x"
      using c_notin by (auto simp: s1)
    show "nodes s1 n = map_option
            (\<lambda>nd. nd\<lparr>children := map_option (\<lambda>xs. xs @ [Some (root_addr leaf)]) (children nd)\<rparr>)
            (nodes s n)"
      by (simp add: s1 nn leaf_def)
  qed
  have m1: "mset (addrs tr1) = mset (addrs tr) + {#c#}"
    unfolding tr1_def by (simp add: graft_addrs [OF n_in Cons.prems(3)] leaf_def)
  have "distinct (addrs tr @ [c])"
    using Cons.prems(3) c_notin by simp
  moreover have "mset (addrs tr1) = mset (addrs tr @ [c])"
    by (simp add: m1)
  ultimately have d1: "distinct (addrs tr1)"
    using mset_eq_imp_distinct_iff by blast
  have set1: "set (addrs tr1) = insert c (set (addrs tr))"
    using m1 by (metis mset_eq_setD set_mset_mset set_mset_add_mset_insert union_mset_add_mset_right
        add.right_neutral)
  have "n < c" using below n_in by blast
  then have ok1: "heap_ok s1"
    using Cons.prems(4) by (auto simp: heap_ok_def s1 c_def)
  have l1: "length cmds \<le> length (alloc_script s1)"
    and no1: "None \<notin> set (take (length cmds) (alloc_script s1))"
    using Cons.prems(5,6) script by (simp_all add: s1)
  have r1: "add_children cmds (Some (root_addr tr1)) s1 = Inr s'"
    using rest by (simp add: tr1_def root_addr_graft)
  from Cons.IH [OF r1 t1 d1 ok1 l1 no1] obtain tr'
    where a: "tree_at s' tr'" "distinct (addrs tr')" "root_addr tr' = root_addr tr1" "heap_ok s'"
      and nx: "next_addr s' = next_addr s1 + length cmds"
      and b: "mset (addrs tr') = mset (addrs tr1) + mset [next_addr s1 ..< next_addr s1 + length cmds]"
      and f: "\<forall>x. x < next_addr s1 \<and> x \<notin> set (addrs tr1) \<longrightarrow> nodes s' x = nodes s1 x"
      and tc: "trace s' = trace s1"
      and u: "mset (tree_units tr') = mset (tree_units tr1) + mset (units (map snd cmds))"
    by blast
  have nx1: "next_addr s1 = Suc c" by (simp add: s1)
  have "[next_addr s ..< next_addr s + length (cmd # cmds)] = c # [Suc c ..< Suc c + length cmds]"
    unfolding c_def by (subst upt_rec) simp
  then have b': "mset (addrs tr') = mset (addrs tr)
                   + mset [next_addr s ..< next_addr s + length (cmd # cmds)]"
    by (simp add: b m1 nx1)
  have f': "\<forall>x. x < next_addr s \<and> x \<notin> set (addrs tr) \<longrightarrow> nodes s' x = nodes s x"
  proof (intro allI impI)
    fix x assume x: "x < next_addr s \<and> x \<notin> set (addrs tr)"
    then have "x < next_addr s1 \<and> x \<notin> set (addrs tr1)"
      by (auto simp: nx1 set1 c_def)
    then have "nodes s' x = nodes s1 x" using f by blast
    also have "\<dots> = nodes s x"
      using x n_in by (auto simp: s1 c_def)
    finally show "nodes s' x = nodes s x" .
  qed
  have u': "mset (tree_units tr') = mset (tree_units tr) + mset (units (map snd (cmd # cmds)))"
    unfolding u tr1_def graft_units [OF n_in Cons.prems(3)]
    by (simp add: cmd leaf_def units_Cons [of tok "map snd cmds"])
  have "trace s' = trace s" by (simp add: tc s1)
  moreover have "next_addr s' = next_addr s + length (cmd # cmds)"
    by (simp add: nx nx1 c_def)
  moreover have "root_addr tr' = root_addr tr"
    by (simp add: a(3) tr1_def root_addr_graft)
  ultimately show ?case
    using a(1,2,4) b' f' u' by blast
qed

lemma need_bound: "need tr < 3 * length (addrs tr)"
  and needs_bound: "needs ks \<le> 3 * length (concat (map addrs ks)) + 1"
  by (induction tr and ks rule: need_needs.induct) auto

lemma released_tokens_append:
  "released_tokens (xs @ ys) = released_tokens xs @ released_tokens ys"
  by (induction xs rule: released_tokens.induct) auto

lemma released_nodes_append:
  "released_nodes (xs @ ys) = released_nodes xs @ released_nodes ys"
  by (induction xs rule: released_nodes.induct) auto

lemma released_tokens_concat:
  "released_tokens (concat xss) = concat (map released_tokens xss)"
  by (induction xss) (auto simp: released_tokens_append)

lemma released_nodes_concat:
  "released_nodes (concat xss) = concat (map released_nodes xss)"
  by (induction xss) (auto simp: released_nodes_append)

lemma released_tokens_destroy: "released_tokens (destroy_order tr) = tree_units tr"
proof (induction tr)
  case (HT a t p ks)
  then have e: "map (released_tokens \<circ> destroy_order) ks = map tree_units ks"
    by simp
  show ?case
    by (cases t) (simp_all add: released_tokens_append released_tokens_concat e)
qed

lemma mset_concat_map_cong:
  "(\<And>k. k \<in> set ks \<Longrightarrow> mset (f k) = mset (g k)) \<Longrightarrow>
     mset (concat (map f ks)) = mset (concat (map g ks))"
  by (induction ks) auto

lemma released_nodes_destroy: "mset (released_nodes (destroy_order tr)) = mset (addrs tr)"
proof (induction tr)
  case (HT a t p ks)
  have "mset (concat (map (\<lambda>k. released_nodes (destroy_order k)) ks))
          = mset (concat (map addrs ks))"
    by (rule mset_concat_map_cong) (rule HT.IH)
  then show ?case
    by (cases t) (simp_all add: released_nodes_append released_nodes_concat comp_def)
qed

text \<open>
  C1: for every tree built by \<^verbatim>\<open>Node_new\<close> and nested \<^verbatim>\<open>Node_addChild\<close>
  calls, every allocation succeeding, one \<^verbatim>\<open>Node_free\<close> on the root returns, given
  fuel of three times the number of Nodes, and releases every Lexical Unit handed in and
  every Node built exactly once: the released units are, as a multiset, the units
  handed in (so none twice when the caller's handles were distinct); the released Nodes
  are distinct, as many as were constructed, and exactly the Nodes allocated since the
  start; and afterwards the store of Nodes is what it was before the tree was built.
\<close>

theorem Node_free_releases_all:
  assumes "heap_ok s0"
    and "length cmds < length (alloc_script s0)"
    and "None \<notin> set (take (Suc (length cmds)) (alloc_script s0))"
    and "build tok cmds s0 = Inr (root, s)"
    and "3 * Suc (length cmds) \<le> k"
  shows "\<exists>s' evs. Node_free k root s = Inr (None, s') \<and> trace s' = trace s0 @ evs
           \<and> nodes s' = nodes s0
           \<and> mset (released_tokens evs) = mset (units (tok # map snd cmds))
           \<and> (distinct (units (tok # map snd cmds)) \<longrightarrow> distinct (released_tokens evs))
           \<and> distinct (released_nodes evs)
           \<and> length (released_nodes evs) = Suc (length cmds)
           \<and> set (released_nodes evs) = {a. nodes s a \<noteq> None \<and> nodes s0 a = None}"
proof -
  from assms(2,3) obtain raw script where script: "alloc_script s0 = Some raw # script"
    by (cases "alloc_script s0"; cases "hd (alloc_script s0)") auto
  define c where "c = next_addr s0"
  define s1 where "s1 = s0\<lparr>nodes := (nodes s0)(c \<mapsto> raw\<lparr>token := tok, children := Some []\<rparr>),
                            next_addr := Suc c, alloc_script := script\<rparr>"
  define tr0 where "tr0 = HT c tok (parent raw) []"
  have new: "Node_new tok s0 = (Some c, None, s1)"
    unfolding s1_def c_def by (rule Node_new_ok [OF script])
  from assms(4) have root: "root = Some c"
    and ac: "add_children cmds (Some (root_addr tr0)) s1 = Inr s"
    by (auto simp: build_def new tr0_def split: sum.splits)
  have t0: "tree_at s1 tr0"
    by (cases raw) (simp add: tr0_def s1_def)
  have d0: "distinct (addrs tr0)" by (simp add: tr0_def)
  have ok1: "heap_ok s1"
    using assms(1) by (auto simp: heap_ok_def s1_def c_def)
  have l1: "length cmds \<le> length (alloc_script s1)"
    and no1: "None \<notin> set (take (length cmds) (alloc_script s1))"
    using assms(2,3) script by (simp_all add: s1_def)
  from add_children_inv [OF ac t0 d0 ok1 l1 no1] obtain tr
    where t: "tree_at s tr" and d: "distinct (addrs tr)" and r: "root_addr tr = c"
      and ok: "heap_ok s" and nx: "next_addr s = next_addr s1 + length cmds"
      and m: "mset (addrs tr) = mset (addrs tr0) + mset [next_addr s1 ..< next_addr s1 + length cmds]"
      and f: "\<forall>x. x < next_addr s1 \<and> x \<notin> set (addrs tr0) \<longrightarrow> nodes s x = nodes s1 x"
      and tc: "trace s = trace s1"
      and u: "mset (tree_units tr) = mset (tree_units tr0) + mset (units (map snd cmds))"
    by (auto simp: tr0_def)
  have "[c ..< c + Suc (length cmds)] = c # [Suc c ..< Suc c + length cmds]"
    by (subst upt_rec) simp
  then have m': "mset (addrs tr) = mset [c ..< c + Suc (length cmds)]"
    using m by (simp add: tr0_def s1_def)
  then have set_tr: "set (addrs tr) = {c ..< c + Suc (length cmds)}"
    by (metis mset_eq_setD set_upt)
  have len_tr: "length (addrs tr) = Suc (length cmds)"
    using m' by (metis mset_eq_length length_upt add_diff_cancel_left')
  have "need tr < 3 * length (addrs tr)" by (rule need_bound)
  then have nk: "need tr \<le> k" using assms(5) len_tr by simp
  define evs where "evs = destroy_order tr"
  define s' where "s' = s\<lparr>nodes := nodes s |` (- set (addrs tr)), trace := trace s @ evs\<rparr>"
  have free: "Node_free k root s = Inr (None, s')"
    unfolding root s'_def evs_def using Node_free_tree [OF t d nk] by (simp add: r)
  have tr': "trace s' = trace s0 @ evs"
    by (simp add: s'_def tc s1_def)
  have below: "\<forall>x. x < c \<longrightarrow> nodes s x = nodes s0 x"
    using f by (auto simp: s1_def tr0_def)
  have nx': "next_addr s = c + Suc (length cmds)"
    by (simp add: nx s1_def)
  have c0: "\<forall>x. c \<le> x \<longrightarrow> nodes s0 x = None"
    using assms(1) by (simp add: heap_ok_def c_def)
  have above: "\<forall>x. c + Suc (length cmds) \<le> x \<longrightarrow> nodes s x = None"
    using ok by (simp add: heap_ok_def nx')
  have live: "\<forall>x \<in> set (addrs tr). nodes s x \<noteq> None"
    using tree_at_live [OF t] by fastforce
  have n': "nodes s' = nodes s0"
  proof (rule ext)
    fix x
    consider "x < c" | "x \<in> set (addrs tr)" | "c + Suc (length cmds) \<le> x"
      unfolding set_tr by fastforce
    then show "nodes s' x = nodes s0 x"
    proof cases
      case 1
      then have "x \<notin> set (addrs tr)" by (simp add: set_tr)
      then show ?thesis using 1 below by (simp add: s'_def)
    next
      case 2
      then have "c \<le> x" by (simp add: set_tr)
      then show ?thesis using 2 c0 by (simp add: s'_def)
    next
      case 3
      then have "x \<notin> set (addrs tr)" "c \<le> x" by (simp_all add: set_tr)
      then show ?thesis using 3 above c0 by (simp add: s'_def)
    qed
  qed
  have rt: "mset (released_tokens evs) = mset (units (tok # map snd cmds))"
    unfolding evs_def released_tokens_destroy u
    by (simp add: tr0_def units_Cons [of tok "map snd cmds"])
  then have rtd: "distinct (units (tok # map snd cmds)) \<longrightarrow> distinct (released_tokens evs)"
    using mset_eq_imp_distinct_iff by blast
  have rn: "mset (released_nodes evs) = mset (addrs tr)"
    unfolding evs_def by (rule released_nodes_destroy)
  then have rnd: "distinct (released_nodes evs)"
    using d mset_eq_imp_distinct_iff by blast
  have rnl: "length (released_nodes evs) = Suc (length cmds)"
    using rn len_tr by (metis mset_eq_length)
  have "set (released_nodes evs) = set (addrs tr)"
    using rn by (rule mset_eq_setD)
  also have "\<dots> = {a. nodes s a \<noteq> None \<and> nodes s0 a = None}"
  proof (intro set_eqI iffI)
    fix x assume x: "x \<in> set (addrs tr)"
    then have "c \<le> x" by (simp add: set_tr)
    then show "x \<in> {a. nodes s a \<noteq> None \<and> nodes s0 a = None}"
      using x live c0 by simp
  next
    fix x assume x: "x \<in> {a. nodes s a \<noteq> None \<and> nodes s0 a = None}"
    then have "\<not> x < c" "\<not> c + Suc (length cmds) \<le> x"
      using below above by auto
    then show "x \<in> set (addrs tr)" by (simp add: set_tr)
  qed
  finally have rns: "set (released_nodes evs) = {a. nodes s a \<noteq> None \<and> nodes s0 a = None}" .
  show ?thesis
    using free tr' n' rt rtd rnd rnl rns by blast
qed

lemma build_three_nodes:
  "build (Some 10) [([], Some 11), ([0], Some 12)]
     (init_state [Some zeroed, Some zeroed, Some zeroed]) = Inr (Some 0, three_nodes)"
  by (simp add: three_nodes_def build_def Node_new_def Platform_Alloc_def init_state_def
        update_node_def Array_new_def Node_addChild_def deref_def Array_push_def
        Node_iterator_def NodeIterator_new_def zeroed_def)

theorem Node_free_releases_all_witness:
  "heap_ok (init_state [Some zeroed, Some zeroed, Some zeroed])
   \<and> build (Some 10) [([], Some 11), ([0], Some 12)]
        (init_state [Some zeroed, Some zeroed, Some zeroed]) = Inr (Some 0, three_nodes)
   \<and> (\<exists>s' evs. Node_free 9 (Some 0) three_nodes = Inr (None, s') \<and> trace s' = evs
         \<and> nodes s' = Map.empty
         \<and> mset (released_tokens evs) = mset [10, 11, 12]
         \<and> distinct (released_tokens evs)
         \<and> distinct (released_nodes evs)
         \<and> length (released_nodes evs) = 3)"
proof -
  let ?s0 = "init_state [Some zeroed, Some zeroed, Some zeroed]"
  let ?cmds = "[([], Some 11), ([0], Some 12)] :: (nat list \<times> Token option) list"
  have ok: "heap_ok ?s0"
    by (simp add: heap_ok_def init_state_def)
  have l: "length ?cmds < length (alloc_script ?s0)"
    and no: "None \<notin> set (take (Suc (length ?cmds)) (alloc_script ?s0))"
    and k: "3 * Suc (length ?cmds) \<le> 9"
    by (simp_all add: init_state_def)
  have u: "units (Some 10 # map snd ?cmds) = [10, 11, 12]"
    by simp
  from Node_free_releases_all [OF ok l no build_three_nodes k]
  obtain s' evs where "Node_free 9 (Some 0) three_nodes = Inr (None, s')"
    and "trace s' = trace ?s0 @ evs" and "nodes s' = nodes ?s0"
    and "mset (released_tokens evs) = mset (units (Some 10 # map snd ?cmds))"
    and "distinct (units (Some 10 # map snd ?cmds)) \<longrightarrow> distinct (released_tokens evs)"
    and "distinct (released_nodes evs)"
    and "length (released_nodes evs) = Suc (length ?cmds)"
    by blast
  then show ?thesis
    using ok build_three_nodes unfolding u by (simp add: init_state_def)
qed

end
